theory Spec2Isabelle
  imports Complex_Main "HOL-Library.Sublist"
begin

section \<open>Errors of the engine\<close>

text \<open>
  The source throws plain \<open>Error\<close> objects that differ in their message only.  Each
  \<open>throw\<close> site of the modelled code is one constructor, named after the error kind
  it stands for.
\<close>

datatype error =
    LockTimeout          \<comment> \<open>\<open>Failed to acquire lock after maximum retries\<close>\<close>
  | CollectionNotFound   \<comment> \<open>\<open>Collection '...' not found\<close>\<close>
  | ItemNotFound         \<comment> \<open>\<open>Item with id '...' not found in collection '...'\<close>\<close>
  | ValidationError      \<comment> \<open>every \<open>throw\<close> of \<open>validateItem\<close>\<close>
  | FormatError          \<comment> \<open>\<open>Failed to parse JSON\<close>, \<open>Failed to serialize JSON\<close>, format not initialized\<close>
  | StorageError         \<comment> \<open>a read or a write that the storage medium refuses\<close>
  | TypeError            \<comment> \<open>a property read on \<open>undefined\<close> or \<open>null\<close>, a call of what is no function\<close>

fun bits :: "nat \<Rightarrow> nat" where
  "bits n = (if n = 0 then 0 else Suc (bits (n div 2)))"

declare bits.simps [simp del]

definition floor_log2 :: "rat \<Rightarrow> int" where
  "floor_log2 a =
     (let (n, d) = quotient_of a;
          k = int (bits (nat n)) - int (bits (nat d))
      in if 2 powi k \<le> a then k else k - 1)"

definition round_half_even :: "rat \<Rightarrow> int" where
  "round_half_even r =
     (let f = \<lfloor>r\<rfloor>; d = r - of_int f
      in if d < 1 / 2 then f else if 1 / 2 < d then f + 1 else if even f then f else f + 1)"

definition fl_pos :: "rat \<Rightarrow> rat" where
  "fl_pos a =
     (let e = max (floor_log2 a - 52) (- 1074)
      in of_int (round_half_even (a / 2 powi e)) * 2 powi e)"

definition fl :: "rat \<Rightarrow> rat" where
  "fl q = (if q = 0 then 0 else if 0 < q then fl_pos q else - fl_pos (- q))"

section \<open>JavaScript strings\<close>

text \<open>
  A string of JavaScript is a sequence of 16-bit code units; a code unit is modelled by its
  number.  \<open>str\<close> is the string that an ASCII literal denotes.
\<close>

type_synonym jstring = "nat list"

definition str :: "string \<Rightarrow> jstring" where
  "str s = map of_char s"

section \<open>LockManager\<close>

text \<open>
  The lock is a file that holds the time at which it was taken.  \<open>NoLock\<close>: there is no
  such file; \<open>LockAt t\<close>: the file holds the decimal text of \<open>t\<close>, as \<open>acquireLock\<close> writes
  it; \<open>LockUnparsable\<close>: \<open>parseInt\<close> of the file's text is \<open>NaN\<close>; \<open>LockUnreadable\<close>: the
  file is there and \<open>readFile\<close> fails.
\<close>

datatype lock_file = NoLock | LockAt int | LockUnparsable | LockUnreadable

record lock_config =
  maxRetries :: nat
  retryDelay :: int
  lockTimeout :: int

text \<open>The constructor: \<open>options.x || default\<close> takes the default for a missing or zero option.\<close>

definition LockManager_new :: "nat option \<Rightarrow> int option \<Rightarrow> int option \<Rightarrow> lock_config" where
  "LockManager_new optMaxRetries optRetryDelay optLockTimeout =
     \<lparr> maxRetries = (case optMaxRetries of None \<Rightarrow> 3 | Some n \<Rightarrow> if n = 0 then 3 else n),
       retryDelay = (case optRetryDelay of None \<Rightarrow> 1000 | Some d \<Rightarrow> if d = 0 then 1000 else d),
       lockTimeout = (case optLockTimeout of None \<Rightarrow> 30000 | Some t \<Rightarrow> if t = 0 then 30000 else t) \<rparr>"

text \<open>
  What the lock manager sees of the world.  \<open>creatable\<close>: the directory accepts a new
  file (otherwise \<open>writeFile\<close> fails with a code other than \<open>EEXIST\<close>); \<open>removable\<close>:
  \<open>unlink\<close> of the lock file succeeds.  \<open>clock\<close> lists the successive results of
  \<open>Date.now()\<close> and \<open>ticks\<close> counts the readings made so far; \<open>slept\<close> records the
  arguments of the calls of \<open>sleep\<close>, oldest first.
\<close>

record lock_state =
  lock :: lock_file
  creatable :: bool
  removable :: bool
  clock :: "nat \<Rightarrow> int"
  ticks :: nat
  slept :: "rat list"

text \<open>The JavaScript number that an integer denotes.\<close>

definition num :: "int \<Rightarrow> rat" where
  "num n = fl (of_int n)"

definition Date_now :: "lock_state \<Rightarrow> int \<times> lock_state" where
  "Date_now s = (clock s (ticks s), s\<lparr>ticks := Suc (ticks s)\<rparr>)"

text \<open>\<open>fs.unlink\<close> inside \<open>try { } catch { }\<close>: a failure is swallowed.\<close>

definition releaseLock :: "lock_state \<Rightarrow> lock_state" where
  "releaseLock s = (if removable s then s\<lparr>lock := NoLock\<rparr> else s)"

definition sleep :: "rat \<Rightarrow> lock_state \<Rightarrow> lock_state" where
  "sleep ms s = s\<lparr>slept := slept s @ [ms]\<rparr>"

text \<open>\<open>now - lockTime > this.lockTimeout\<close>, in floating point.\<close>

definition lock_expired :: "lock_config \<Rightarrow> int \<Rightarrow> int \<Rightarrow> bool" where
  "lock_expired cfg now lockTime \<longleftrightarrow> num (lockTimeout cfg) < fl (num now - num lockTime)"

text \<open>\<open>retries++\<close> on a number: above \<open>2 ^ 53\<close> the sum is rounded back.\<close>

definition increment :: "nat \<Rightarrow> nat" where
  "increment retries = (if retries < 2 ^ 53 then Suc retries else retries)"

text \<open>
  The loop of \<open>acquireLock\<close>.  Each pass evaluates \<open>Date.now().toString()\<close> and attempts
  the exclusive write.  If the file exists, it is read: a file that cannot be read is
  unlinked and the pass repeated; a file older than \<open>lockTimeout\<close> is released and the pass
  repeated; in both cases \<open>retries\<close> stays as it is.  Otherwise \<open>retries\<close> is incremented
  and, unless it has reached \<open>maxRetries\<close>, the loop sleeps \<open>retryDelay * retries\<close>.  The
  result \<open>None\<close> is a loop that never ends.
\<close>

partial_function (option) acquireLock_loop ::
  "lock_config \<Rightarrow> lock_state \<Rightarrow> nat \<Rightarrow> ((error + bool) \<times> lock_state) option" where
  "acquireLock_loop cfg s retries =
     (if retries < maxRetries cfg then
        (case Date_now s of (written, s1) \<Rightarrow>
          (if lock s1 = NoLock \<and> creatable s1 then Some (Inr True, s1\<lparr>lock := LockAt written\<rparr>)
           else if lock s1 = LockUnreadable then acquireLock_loop cfg (releaseLock s1) retries
           else
             (case (case lock s1 of
                      LockAt lockTime \<Rightarrow>
                        (case Date_now s1 of (now, s2) \<Rightarrow> (lock_expired cfg now lockTime, s2))
                    | LockUnparsable \<Rightarrow> (False, snd (Date_now s1))
                    | _ \<Rightarrow> (False, s1)) of
                (expired, s2) \<Rightarrow>
                  if expired then acquireLock_loop cfg (releaseLock s2) retries
                  else if increment retries < maxRetries cfg
                  then acquireLock_loop cfg
                         (sleep (fl (num (retryDelay cfg) * of_nat (increment retries))) s2)
                         (increment retries)
                  else acquireLock_loop cfg s2 (increment retries))))
      else Some (Inl LockTimeout, s))"

definition acquireLock :: "lock_config \<Rightarrow> lock_state \<Rightarrow> ((error + bool) \<times> lock_state) option" where
  "acquireLock cfg s = acquireLock_loop cfg s 0"

text \<open>
  Modelled from the spec: section 6 has lock acquisition retry ``with exponential
  backoff''.  A sequence of delays grows exponentially when it increases and each delay
  is the geometric mean of its neighbours.
\<close>

fun exponential_backoff :: "rat list \<Rightarrow> bool" where
  "exponential_backoff (a # b # c # ds) \<longleftrightarrow>
     a < b \<and> b * b = a * c \<and> exponential_backoff (b # c # ds)"
| "exponential_backoff [a, b] \<longleftrightarrow> a < b"
| "exponential_backoff _ \<longleftrightarrow> True"

text \<open>
  A lock directory in working order, for the examples: the lock file \<open>l\<close>, a clock that
  shows \<open>start\<close> first and advances by \<open>step\<close> from one reading to the next, and no
  sleep so far.
\<close>

definition example_lock :: "lock_file \<Rightarrow> int \<Rightarrow> int \<Rightarrow> lock_state" where
  "example_lock l start step =
     \<lparr> lock = l, creatable = True, removable = True,
       clock = (\<lambda>i. start + step * int i), ticks = 0, slept = [] \<rparr>"

section \<open>The version-controlled medium\<close>

text \<open>
  The \<open>date\<close> of a commit as the history manager receives it from its client.  GitHub's API
  returns the ISO 8601 text of the instant (\<open>IsoDate\<close>, with the instant in milliseconds),
  which \<open>ToNumber\<close> maps to \<open>NaN\<close>.  A client that hands over \<open>Date\<close> objects is modelled by
  \<open>DateObject t\<close>, the object \<open>new Date(t)\<close>: its time value is \<open>t\<close> if \<open>t\<close> is within
  \<open>8.64e15\<close> milliseconds of the epoch, and \<open>NaN\<close> otherwise.
\<close>

datatype js_date = IsoDate int | DateObject int

record author =
  name :: jstring
  email :: jstring
  date :: js_date

text \<open>
  One version of the data file: what \<open>listCommits\<close> reports about the commit, and the file's
  text at that commit.  The medium is the list of its versions, newest first; the empty
  list is a repository without the file.
\<close>

record commit =
  sha :: nat
  message :: jstring
  author :: author
  content :: jstring

type_synonym medium = "commit list"

section \<open>HistoryManager\<close>

text \<open>\<open>listCommits\<close> with \<open>per_page: limit\<close> returns the newest \<open>limit\<close> commits of the file.\<close>

definition getFileHistory :: "medium \<Rightarrow> nat \<Rightarrow> commit list" where
  "getFileHistory vlog limit = take limit vlog"

definition getFileAtCommit :: "medium \<Rightarrow> nat \<Rightarrow> jstring option" where
  "getFileAtCommit vlog s = map_option content (find (\<lambda>c. sha c = s) vlog)"

subsection \<open>Statistics\<close>

text \<open>
  The arithmetic of \<open>getHistoryStats\<close> is that of IEEE 754 doubles: every operation yields
  the exact result rounded by \<open>fl\<close>.  \<open>None\<close> stands for \<open>NaN\<close>.  The values that occur
  are far from the overflow threshold: a time value is at most \<open>8.64e15\<close> and at most 100
  commits are counted.  \<open>to_number\<close> is \<open>ToNumber\<close> on a commit date and \<open>js_minus\<close> the
  operator \<open>-\<close> on two of them.
\<close>

definition to_number :: "js_date \<Rightarrow> rat option" where
  "to_number d =
     (case d of
        IsoDate t \<Rightarrow> None
      | DateObject t \<Rightarrow> if \<bar>t\<bar> \<le> 8640000000000000 then Some (of_int t) else None)"

definition js_minus :: "js_date \<Rightarrow> js_date \<Rightarrow> rat option" where
  "js_minus a b =
     (case (to_number a, to_number b) of (Some x, Some y) \<Rightarrow> Some (fl (x - y)) | _ \<Rightarrow> None)"

text \<open>\<open>Math.round\<close> on a number that is not negative: the nearest integer, a half upwards.\<close>

definition Math_round :: "rat \<Rightarrow> rat" where
  "Math_round x = of_int \<lfloor>x + 1 / 2\<rfloor>"

text \<open>\<open>[...new Set(xs)]\<close>: the first occurrence of each value, in order.\<close>

fun uniq :: "'a list \<Rightarrow> 'a list" where
  "uniq [] = []"
| "uniq (x # xs) = x # filter (\<lambda>y. y \<noteq> x) (uniq xs)"

record commit_summary =
  s_sha :: nat
  s_date :: js_date
  s_message :: jstring

record history_stats =
  totalCommits :: nat
  firstCommit :: "commit_summary option"
  lastCommit :: "commit_summary option"
  authors :: "jstring list"
  averageCommitsPerDay :: rat

definition summary :: "commit \<Rightarrow> commit_summary" where
  "summary c = \<lparr> s_sha = sha c, s_date = date (author c), s_message = message c \<rparr>"

definition getHistoryStats :: "medium \<Rightarrow> history_stats" where
  "getHistoryStats vlog =
     (let commits = getFileHistory vlog 100 in
      if commits = [] then
        \<lparr> totalCommits = 0, firstCommit = None, lastCommit = None, authors = [],
          averageCommitsPerDay = 0 \<rparr>
      else
        let firstCommit = last commits;
            lastCommit = hd commits;
            timeSpan = map_option (\<lambda>d. fl (d / (1000 * 60 * 60 * 24)))
                         (js_minus (date (author lastCommit)) (date (author firstCommit)));
            averageCommitsPerDay =
              (case timeSpan of
                 None \<Rightarrow> 0
               | Some t \<Rightarrow> if t > 0 then fl (of_nat (length commits) / t) else 0)
        in \<lparr> totalCommits = length commits,
             firstCommit = Some (summary firstCommit),
             lastCommit = Some (summary lastCommit),
             authors = uniq (map (\<lambda>c. name (author c)) commits),
             averageCommitsPerDay = fl (Math_round (fl (averageCommitsPerDay * 100)) / 100) \<rparr>)"

text \<open>
  Modelled from the spec: the statistics are specified with
  \<open>averagePerDay = totalVersions / max(1, dayspan between first and last version timestamp)\<close>.
\<close>

definition spec_averagePerDay :: "nat \<Rightarrow> rat \<Rightarrow> rat" where
  "spec_averagePerDay totalVersions dayspan = of_nat totalVersions / max 1 dayspan"

text \<open>A log of two versions by one author, made at the times \<open>d1\<close> (the newer) and \<open>d0\<close>.\<close>

definition stats_log :: "js_date \<Rightarrow> js_date \<Rightarrow> medium" where
  "stats_log d1 d0 =
     [ \<lparr> sha = 2, message = str ''second'',
         author = \<lparr> name = str ''dev'', email = str ''dev@example.com'', date = d1 \<rparr>,
         content = str ''{}'' \<rparr>,
       \<lparr> sha = 1, message = str ''first'',
         author = \<lparr> name = str ''dev'', email = str ''dev@example.com'', date = d0 \<rparr>,
         content = str ''{}'' \<rparr> ]"

lemma bits_bounds: "0 < n \<Longrightarrow> 2 ^ (bits n - 1) \<le> n \<and> n < 2 ^ bits n"
proof (induction n rule: bits.induct)
  case (1 n)
  show ?case
  proof (cases "n div 2 = 0")
    case True
    with 1(2) have "n = 1" by (metis One_nat_def Suc_lessI div_less_iff_less_mult less_2_cases_iff mult_2_right nat_1_add_1 not_less_eq pos2 div_eq_0_iff zero_neq_numeral)
    thus ?thesis by (simp add: bits.simps)
  next
    case False
    hence pos: "0 < n div 2" by simp
    from 1(1) [OF _ pos] 1(2) have IH: "2 ^ (bits (n div 2) - 1) \<le> n div 2" "n div 2 < 2 ^ bits (n div 2)"
      by auto
    have b: "bits n = Suc (bits (n div 2))" using 1(2) by (simp add: bits.simps)
    have b1: "0 < bits (n div 2)" using pos by (simp add: bits.simps)
    have "(2::nat) ^ bits (n div 2) = 2 * 2 ^ (bits (n div 2) - 1)"
      using b1 by (cases "bits (n div 2)") simp_all
    hence lo: "(2::nat) ^ bits (n div 2) \<le> n" using IH(1) by linarith
    have hi: "n < 2 * 2 ^ bits (n div 2)" using IH(2) by linarith
    show ?thesis using lo hi by (simp add: b)
  qed
qed

lemma floor_log2_bounds:
  assumes "0 < a"
  shows "2 powi floor_log2 a \<le> a \<and> a < 2 powi (floor_log2 a + 1)"
proof -
  obtain n d where q: "quotient_of a = (n, d)" by (cases "quotient_of a")
  have d: "0 < d" using q quotient_of_denom_pos by blast
  have a: "a = of_int n / of_int d" using q by (rule quotient_of_div)
  have n: "0 < n" using assms d a by (simp add: zero_less_divide_iff)
  define bn where "bn = bits (nat n)"
  define bd where "bd = bits (nat d)"
  define k where "k = int bn - int bd"
  have nb: "2 ^ (bn - 1) \<le> nat n" "nat n < 2 ^ bn"
    using bits_bounds [of "nat n"] n by (simp_all add: bn_def)
  have db: "2 ^ (bd - 1) \<le> nat d" "nat d < 2 ^ bd"
    using bits_bounds [of "nat d"] d by (simp_all add: bd_def)
  have bn1: "0 < bn" using n by (simp add: bn_def bits.simps)
  have bd1: "0 < bd" using d by (simp add: bd_def bits.simps)
  have nr: "(2::rat) ^ (bn - 1) \<le> of_int n" "(of_int n :: rat) < 2 ^ bn"
  proof -
    have "(of_nat (2 ^ (bn - 1)) :: rat) \<le> of_nat (nat n)" using nb(1) of_nat_le_iff by blast
    thus "(2::rat) ^ (bn - 1) \<le> of_int n" using n by simp
    have "(of_nat (nat n) :: rat) < of_nat (2 ^ bn)" using nb(2) of_nat_less_iff by blast
    thus "(of_int n :: rat) < 2 ^ bn" using n by simp
  qed
  have dr: "(2::rat) ^ (bd - 1) \<le> of_int d" "(of_int d :: rat) < 2 ^ bd"
  proof -
    have "(of_nat (2 ^ (bd - 1)) :: rat) \<le> of_nat (nat d)" using db(1) of_nat_le_iff by blast
    thus "(2::rat) ^ (bd - 1) \<le> of_int d" using d by simp
    have "(of_nat (nat d) :: rat) < of_nat (2 ^ bd)" using db(2) of_nat_less_iff by blast
    thus "(of_int d :: rat) < 2 ^ bd" using d by simp
  qed
  have dpos: "(0::rat) < of_int d" using d by simp
  have up: "a < 2 powi (k + 1)"
  proof -
    have "of_int n < (2::rat) ^ bn" by (rule nr(2))
    also have "\<dots> = 2 powi (k + 1) * 2 ^ (bd - 1)"
    proof -
      have e1: "k + 1 + int (bd - 1) = int bn" using bd1 unfolding k_def by linarith
      have "(2::rat) ^ bn = 2 powi int bn" by simp
      also have "\<dots> = 2 powi (k + 1 + int (bd - 1))" by (simp only: e1)
      also have "\<dots> = 2 powi (k + 1) * 2 powi int (bd - 1)" by (rule power_int_add) simp
      also have "\<dots> = 2 powi (k + 1) * 2 ^ (bd - 1)" by (simp only: power_int_of_nat)
      finally show ?thesis .
    qed
    also have "\<dots> \<le> 2 powi (k + 1) * of_int d"
      using dr(1) by (simp add: mult_left_mono)
    finally show ?thesis using dpos by (simp add: a pos_divide_less_eq)
  qed
  have low: "2 powi (k - 1) < a"
  proof -
    have "2 powi (k - 1) * of_int d < 2 powi (k - 1) * (2::rat) ^ bd"
      using dr(2) by (simp add: mult_strict_left_mono)
    also have "\<dots> = 2 ^ (bn - 1)"
    proof -
      have e1: "k - 1 + int bd = int (bn - 1)" using bn1 unfolding k_def by linarith
      have "(2::rat) powi (k - 1) * 2 ^ bd = 2 powi (k - 1) * 2 powi int bd"
        by (simp only: power_int_of_nat)
      also have "\<dots> = 2 powi (k - 1 + int bd)" by (rule power_int_add [symmetric]) simp
      also have "\<dots> = 2 powi int (bn - 1)" by (simp only: e1)
      also have "\<dots> = 2 ^ (bn - 1)" by (simp only: power_int_of_nat)
      finally show ?thesis .
    qed
    also have "\<dots> \<le> of_int n" by (rule nr(1))
    finally show ?thesis using dpos by (simp add: a pos_less_divide_eq)
  qed
  have fl: "floor_log2 a = (if 2 powi k \<le> a then k else k - 1)"
    by (simp add: floor_log2_def q k_def bn_def bd_def Let_def)
  show ?thesis
  proof (cases "2 powi k \<le> a")
    case True
    thus ?thesis using up fl by simp
  next
    case False
    thus ?thesis using low fl by simp
  qed
qed

lemma pow2_less_cancel: "(2::rat) powi p < 2 powi q \<Longrightarrow> p < q"
proof (rule ccontr)
  assume a: "(2::rat) powi p < 2 powi q" and "\<not> p < q"
  hence "q \<le> p" by simp
  hence "(2::rat) powi q \<le> 2 powi p" by (intro power_int_increasing) simp_all
  thus False using a by simp
qed

lemma floor_log2_eqI:
  assumes "2 powi p \<le> a" and "a < 2 powi (p + 1)"
  shows "floor_log2 a = p"
proof -
  have pos: "0 < a" using assms(1) by (smt (verit) zero_less_power_int less_le_trans zero_less_numeral)
  note b = floor_log2_bounds [OF pos]
  have "2 powi p < (2::rat) powi (floor_log2 a + 1)" using assms(1) b by linarith
  hence 1: "p < floor_log2 a + 1" by (rule pow2_less_cancel)
  have "2 powi floor_log2 a < (2::rat) powi (p + 1)" using assms(2) b by linarith
  hence 2: "floor_log2 a < p + 1" by (rule pow2_less_cancel)
  show ?thesis using 1 2 by simp
qed

lemma round_half_even_eqI:
  assumes "\<bar>r - of_int m\<bar> < 1 / 2 \<or> \<bar>r - of_int m\<bar> = 1 / 2 \<and> even m"
  shows "round_half_even r = m"
proof -
  define f where "f = \<lfloor>r\<rfloor>"
  have f1: "of_int f \<le> r" by (simp add: f_def)
  have f2: "r < of_int f + 1" unfolding f_def by linarith
  have m: "m = f \<or> m = f + 1"
  proof -
    have "r - 1 < of_int m" "of_int m < r + 1" using assms by linarith+
    hence "(of_int f :: rat) - 1 < of_int m" "(of_int m :: rat) < of_int f + 2"
      using f1 f2 by linarith+
    hence "(of_int (f - 1) :: rat) < of_int m" "(of_int m :: rat) < of_int (f + 2)" by simp_all
    hence "f - 1 < m" "m < f + 2" using of_int_less_iff by blast+
    thus ?thesis by linarith
  qed
  have unf: "round_half_even r =
     (if r - of_int f < 1 / 2 then f else if 1 / 2 < r - of_int f then f + 1
      else if even f then f else f + 1)"
    by (simp add: round_half_even_def f_def Let_def)
  from m show ?thesis
  proof
    assume mf: "m = f"
    hence "r - of_int f < 1 / 2 \<or> r - of_int f = 1 / 2 \<and> even f"
      using assms f1 by (auto simp: abs_if split: if_splits)
    thus ?thesis unfolding unf using mf by auto
  next
    assume mf: "m = f + 1"
    hence "\<bar>r - of_int f - 1\<bar> < 1 / 2 \<or> \<bar>r - of_int f - 1\<bar> = 1 / 2 \<and> odd f"
      using assms by (simp add: algebra_simps)
    hence "1 / 2 < r - of_int f \<or> r - of_int f = 1 / 2 \<and> odd f"
      using f2 by (auto simp: abs_if split: if_splits)
    thus ?thesis unfolding unf using mf by auto
  qed
qed

lemma fl_pos_eqI:
  assumes "- 1074 \<le> e"
    and "e = - 1074 \<and> 0 < a \<or> 2 powi (e + 52) \<le> a"
    and "a < 2 powi (e + 53)"
    and "\<bar>a / 2 powi e - of_int m\<bar> < 1 / 2 \<or> \<bar>a / 2 powi e - of_int m\<bar> = 1 / 2 \<and> even m"
  shows "fl_pos a = of_int m * 2 powi e"
proof -
  have "max (floor_log2 a - 52) (- 1074) = e"
  proof (cases "2 powi (e + 52) \<le> a")
    case True
    have "a < 2 powi (e + 52 + 1)" using assms(3) by (simp add: add.commute add.left_commute)
    with True have "floor_log2 a = e + 52" by (rule floor_log2_eqI)
    thus ?thesis using assms(1) by simp
  next
    case False
    hence e: "e = - 1074" and pos: "0 < a" using assms(2) by auto
    note b = floor_log2_bounds [OF pos]
    have "2 powi floor_log2 a < (2::rat) powi (e + 52)" using False b by linarith
    hence "floor_log2 a < e + 52" by (rule pow2_less_cancel)
    thus ?thesis using e by simp
  qed
  thus ?thesis using round_half_even_eqI [OF assms(4)] by (simp add: fl_pos_def Let_def)
qed

lemma fl_eqI:
  assumes "0 < a" and "- 1074 \<le> e"
    and "e = - 1074 \<or> 2 powi (e + 52) \<le> a"
    and "a < 2 powi (e + 53)"
    and "\<bar>a / 2 powi e - of_int m\<bar> < 1 / 2 \<or> \<bar>a / 2 powi e - of_int m\<bar> = 1 / 2 \<and> even m"
  shows "fl a = of_int m * 2 powi e"
  using assms fl_pos_eqI [of e a m] by (auto simp: fl_def)

lemma fl_pos_dyadic:
  assumes "0 < m" and "m \<le> 2 ^ 53" and "- 1074 \<le> j"
  shows "fl_pos (of_int m * 2 powi j) = of_int m * 2 powi j"
proof -
  define a :: rat where "a = of_int m * 2 powi j"
  have pos: "0 < a" using assms(1) by (simp add: a_def)
  define p where "p = floor_log2 a"
  define e where "e = max (p - 52) (- 1074)"
  note b = floor_log2_bounds [OF pos, folded p_def]
  have "(of_int m :: rat) \<le> of_int (2 ^ 53)" using assms(2) of_int_le_iff by blast
  hence m53: "(of_int m :: rat) \<le> 2 powi 53" by simp
  have "a \<le> 2 powi 53 * 2 powi j" unfolding a_def using m53 by (simp add: mult_right_mono)
  also have "\<dots> = 2 powi (53 + j)" by (rule power_int_add [symmetric]) simp
  finally have "2 powi p < (2::rat) powi (53 + j + 1)"
    using b by (smt (verit) power_int_strict_increasing one_less_numeral_iff semiring_norm(76) le_less_trans less_add_one)
  hence p: "p \<le> 53 + j" using pow2_less_cancel by fastforce
  have "\<exists>z. a / 2 powi e = of_int z"
  proof (cases "e \<le> j")
    case True
    have "a / 2 powi e = of_int m * (2 powi j / 2 powi e)" by (simp add: a_def)
    also have "2 powi j / (2::rat) powi e = 2 powi (j - e)" by (rule power_int_diff [symmetric]) simp
    also have "\<dots> = 2 ^ nat (j - e)" using True by (simp add: power_int_def)
    also have "of_int m * (2::rat) ^ nat (j - e) = of_int (m * 2 ^ nat (j - e))" by simp
    finally show ?thesis by blast
  next
    case False
    hence ej: "e = p - 52" "p = 53 + j" using assms(3) p by (auto simp: e_def)
    have "2 powi (53 + j) \<le> a" using b ej by simp
    also have "(2::rat) powi (53 + j) = 2 powi 53 * 2 powi j" by (rule power_int_add) simp
    finally have "(2::rat) powi 53 \<le> of_int m" by (simp add: a_def)
    hence "(of_int (2 ^ 53) :: rat) \<le> of_int m" by simp
    hence "2 ^ 53 \<le> m" using of_int_le_iff by blast
    hence m: "m = 2 ^ 53" using assms(2) by simp
    have e1: "e = j + 1" using ej by simp
    have "a / 2 powi e = 2 powi 53 * (2 powi j / 2 powi (j + 1))" by (simp add: a_def m e1)
    also have "2 powi j / (2::rat) powi (j + 1) = 2 powi (j - (j + 1))"
      by (rule power_int_diff [symmetric]) simp
    also have "2 powi 53 * (2::rat) powi (j - (j + 1)) = of_int (2 ^ 52)" by simp
    finally show ?thesis by blast
  qed
  then obtain z where z: "a / 2 powi e = of_int z" ..
  have "round_half_even (a / 2 powi e) = z" unfolding z by (rule round_half_even_eqI) simp
  hence "fl_pos a = of_int z * 2 powi e"
    unfolding fl_pos_def Let_def e_def p_def by simp
  also have "\<dots> = a / 2 powi e * 2 powi e" by (simp only: z)
  also have "\<dots> = a" by simp
  finally show ?thesis by (simp add: a_def)
qed

lemma fl_dyadic:
  assumes "\<bar>m\<bar> \<le> 2 ^ 53" and "- 1074 \<le> j"
  shows "fl (of_int m * 2 powi j) = of_int m * 2 powi j"
proof -
  consider "m = 0" | "0 < m" | "m < 0" by linarith
  thus ?thesis
  proof cases
    case 1 thus ?thesis by (simp add: fl_def)
  next
    case 2
    hence "0 < (of_int m :: rat) * 2 powi j" by simp
    thus ?thesis using fl_pos_dyadic [of m j] 2 assms by (simp add: fl_def)
  next
    case 3
    hence "(of_int m :: rat) * 2 powi j < 0" by (simp add: mult_neg_pos)
    moreover have "fl_pos (of_int (- m) * 2 powi j) = of_int (- m) * 2 powi j"
      using 3 assms by (intro fl_pos_dyadic) simp_all
    ultimately show ?thesis by (simp add: fl_def)
  qed
qed

lemma fl_int: "\<bar>n\<bar> \<le> 2 ^ 53 \<Longrightarrow> fl (of_int n) = of_int n"
  using fl_dyadic [of n 0] by simp

lemma fl_numeral [simp]: "numeral k \<le> (2::int) ^ 53 \<Longrightarrow> fl (numeral k) = numeral k"
  using fl_int [of "numeral k"] by simp

lemma fl_0 [simp]: "fl 0 = 0"
  by (simp add: fl_def)

lemma fl_1 [simp]: "fl 1 = 1"
  using fl_int [of 1] by simp

lemma fl_minus: "fl (- q) = - fl q"
  by (simp add: fl_def)

lemma fl_eqI_neg:
  assumes "0 < a" and "k \<le> 1074"
    and "k = 1074 \<or> 2 ^ 52 \<le> a * 2 ^ k"
    and "a * 2 ^ k < 2 ^ 53"
    and "\<bar>a * 2 ^ k - of_int m\<bar> < 1 / 2 \<or> \<bar>a * 2 ^ k - of_int m\<bar> = 1 / 2 \<and> even m"
  shows "fl a = of_int m / 2 ^ k"
proof -
  have p: "(2::rat) powi (- int k) = 1 / 2 ^ k" by (simp add: power_int_minus_divide)
  have d: "a / 2 powi (- int k) = a * 2 ^ k" by (simp add: p)
  have "2 powi (- int k + 52) = (2::rat) powi (- int k) * 2 powi 52" by (rule power_int_add) simp
  hence "2 powi (- int k + 52) = (2::rat) ^ 52 / 2 ^ k" by (simp only: p power_int_numeral) simp
  hence l: "2 powi (- int k + 52) \<le> a \<longleftrightarrow> 2 ^ 52 \<le> a * 2 ^ k"
    by (simp only: pos_divide_le_eq [of "2 ^ k"] zero_less_power zero_less_numeral)
  have "2 powi (- int k + 53) = (2::rat) powi (- int k) * 2 powi 53" by (rule power_int_add) simp
  hence "2 powi (- int k + 53) = (2::rat) ^ 53 / 2 ^ k" by (simp only: p power_int_numeral) simp
  hence u: "a < 2 powi (- int k + 53) \<longleftrightarrow> a * 2 ^ k < 2 ^ 53"
    by (simp only: pos_less_divide_eq [of "2 ^ k"] zero_less_power zero_less_numeral)
  have "fl a = of_int m * 2 powi (- int k)"
  proof (rule fl_eqI)
    show "0 < a" by fact
    show "- 1074 \<le> - int k" using assms(2) by simp
    show "- int k = - 1074 \<or> 2 powi (- int k + 52) \<le> a" using assms(3) unfolding l by auto
    show "a < 2 powi (- int k + 53)" using assms(4) unfolding u .
    show "\<bar>a / 2 powi (- int k) - of_int m\<bar> < 1 / 2
        \<or> \<bar>a / 2 powi (- int k) - of_int m\<bar> = 1 / 2 \<and> even m"
      using assms(5) unfolding d .
  qed
  thus ?thesis by (simp add: p)
qed

lemma fl_eqI_pos:
  assumes "0 < a"
    and "2 ^ 52 * 2 ^ k \<le> a"
    and "a < 2 ^ 53 * 2 ^ k"
    and "\<bar>a / 2 ^ k - of_int m\<bar> < 1 / 2 \<or> \<bar>a / 2 ^ k - of_int m\<bar> = 1 / 2 \<and> even m"
  shows "fl a = of_int m * 2 ^ k"
proof -
  have "2 powi (int k + 52) = (2::rat) powi (int k) * 2 powi 52" by (rule power_int_add) simp
  hence l: "2 powi (int k + 52) \<le> a \<longleftrightarrow> 2 ^ 52 * 2 ^ k \<le> a"
    by (simp add: field_simps)
  have "2 powi (int k + 53) = (2::rat) powi (int k) * 2 powi 53" by (rule power_int_add) simp
  hence u: "a < 2 powi (int k + 53) \<longleftrightarrow> a < 2 ^ 53 * 2 ^ k"
    by (simp add: field_simps)
  have "fl a = of_int m * 2 powi (int k)"
  proof (rule fl_eqI)
    show "0 < a" by fact
    show "- 1074 \<le> int k" by simp
    show "int k = - 1074 \<or> 2 powi (int k + 52) \<le> a" using assms(2) unfolding l by auto
    show "a < 2 powi (int k + 53)" using assms(3) unfolding u .
    show "\<bar>a / 2 powi (int k) - of_int m\<bar> < 1 / 2
        \<or> \<bar>a / 2 powi (int k) - of_int m\<bar> = 1 / 2 \<and> even m"
      using assms(4) by simp
  qed
  thus ?thesis by simp
qed


lemma round_half_even_ge:
  assumes "of_int z \<le> r"
  shows "z \<le> round_half_even r"
proof -
  have "z \<le> \<lfloor>r\<rfloor>" using assms by (simp add: le_floor_iff)
  thus ?thesis by (simp add: round_half_even_def Let_def)
qed

lemma fl_pos_ge:
  assumes "- 1074 \<le> j" and "2 powi j \<le> a"
  shows "2 powi j \<le> fl_pos a"
proof -
  have pos: "0 < a" using assms(2) by (smt (verit) zero_less_power_int less_le_trans zero_less_numeral)
  define p where "p = floor_log2 a"
  define e where "e = max (p - 52) (- 1074)"
  note b = floor_log2_bounds [OF pos, folded p_def]
  have "2 powi j < (2::rat) powi (p + 1)" using assms(2) b by linarith
  hence jp: "j \<le> p" using pow2_less_cancel by fastforce
  have ep: "e \<le> p" using jp assms(1) by (simp add: e_def)
  have "(2::rat) powi p / 2 powi e = 2 powi (p - e)" by (rule power_int_diff [symmetric]) simp
  also have "\<dots> = 2 ^ nat (p - e)" using ep by (simp add: power_int_def)
  also have "\<dots> = of_int (2 ^ nat (p - e))" by simp
  finally have z: "(2::rat) powi p / 2 powi e = of_int (2 ^ nat (p - e))" .
  have "(2::rat) powi p / 2 powi e \<le> a / 2 powi e"
    using b by (simp add: divide_right_mono)
  hence "2 ^ nat (p - e) \<le> round_half_even (a / 2 powi e)"
    unfolding z by (rule round_half_even_ge)
  hence "(of_int (2 ^ nat (p - e)) :: rat) \<le> of_int (round_half_even (a / 2 powi e))"
    using of_int_le_iff by blast
  hence "(2::rat) powi p / 2 powi e * 2 powi e \<le> of_int (round_half_even (a / 2 powi e)) * 2 powi e"
    unfolding z by (simp add: mult_right_mono)
  hence "(2::rat) powi p \<le> fl_pos a" by (simp add: fl_pos_def Let_def e_def p_def)
  moreover have "(2::rat) powi j \<le> 2 powi p" using jp by (intro power_int_increasing) simp_all
  ultimately show ?thesis by linarith
qed

lemma fl_pos_nonneg:
  assumes "0 \<le> a"
  shows "0 \<le> fl_pos a"
proof -
  have "0 \<le> a / 2 powi max (floor_log2 a - 52) (- 1074)" using assms by simp
  hence "of_int 0 \<le> a / 2 powi max (floor_log2 a - 52) (- 1074)" by simp
  hence "0 \<le> round_half_even (a / 2 powi max (floor_log2 a - 52) (- 1074))"
    by (rule round_half_even_ge)
  thus ?thesis by (simp add: fl_pos_def Let_def)
qed

lemma fl_ge:
  assumes "- 1074 \<le> j" and "2 powi j \<le> a"
  shows "2 powi j \<le> fl a"
proof -
  have "0 < a" using assms(2) by (smt (verit) zero_less_power_int less_le_trans zero_less_numeral)
  thus ?thesis using fl_pos_ge [OF assms] by (simp add: fl_def)
qed

lemma fl_nonpos: "q \<le> 0 \<Longrightarrow> fl q \<le> 0"
  using fl_pos_nonneg [of "- q"] by (simp add: fl_def)

text \<open>Two values of \<open>fl\<close>: the doubles nearest to \<open>0.1\<close> and to \<open>1e23\<close>.\<close>

lemma fl_examples:
  "fl (1 / 10) = 3602879701896397 / 36028797018963968"
  "fl (10 ^ 23) = 99999999999999991611392"
  using fl_eqI_neg [of "1 / 10" 56 7205759403792794]
        fl_eqI_pos [of "10 ^ 23" 24 5960464477539062] by simp_all

section \<open>Properties of the lock\<close>

lemma num_safe: "\<bar>n\<bar> \<le> 2 ^ 53 \<Longrightarrow> num n = of_int n"
  by (simp add: num_def fl_int)

lemma lock_expired_safe:
  assumes "\<bar>now\<bar> \<le> 2 ^ 52" and "\<bar>lockTime\<bar> \<le> 2 ^ 52" and "\<bar>lockTimeout cfg\<bar> \<le> 2 ^ 53"
  shows "lock_expired cfg now lockTime \<longleftrightarrow> lockTimeout cfg < now - lockTime"
proof -
  have d: "\<bar>now - lockTime\<bar> \<le> 2 ^ 53" using assms(1,2) by simp
  have "fl (num now - num lockTime) = fl (of_int (now - lockTime))"
    using assms(1,2) by (simp add: num_safe)
  also have "\<dots> = of_int (now - lockTime)" using d by (rule fl_int)
  finally show ?thesis
    using assms(3) by (simp add: lock_expired_def num_safe del: of_int_diff)
qed

lemma delay_safe:
  assumes "\<bar>retryDelay cfg\<bar> * int (maxRetries cfg) \<le> 2 ^ 53" and "0 < k" and "k \<le> maxRetries cfg"
  shows "fl (num (retryDelay cfg) * of_nat k) = of_int (retryDelay cfg * int k)"
proof -
  have "\<bar>retryDelay cfg\<bar> * int k \<le> \<bar>retryDelay cfg\<bar> * int (maxRetries cfg)"
    using assms(3) by (simp add: mult_left_mono)
  hence k: "\<bar>retryDelay cfg * int k\<bar> \<le> 2 ^ 53" using assms(1) by (simp add: abs_mult)
  have "\<bar>retryDelay cfg\<bar> * 1 \<le> \<bar>retryDelay cfg\<bar> * int k"
    using assms(2) by (intro mult_left_mono) simp_all
  hence "\<bar>retryDelay cfg\<bar> \<le> 2 ^ 53" using k by (simp add: abs_mult)
  hence "num (retryDelay cfg) * of_nat k = of_int (retryDelay cfg * int k)"
    by (simp add: num_safe)
  thus ?thesis using k by (simp only: fl_int)
qed

lemma increment_safe: "r < n \<Longrightarrow> n \<le> 2 ^ 53 \<Longrightarrow> increment r = Suc r"
  by (simp add: increment_def)

text \<open>One pass of the loop, by the state of the lock file.\<close>

lemma pass_free:
  assumes "retries < maxRetries cfg" and "lock s = NoLock" and "creatable s"
  shows "acquireLock_loop cfg s retries
       = Some (Inr True, s\<lparr>lock := LockAt (clock s (ticks s)), ticks := Suc (ticks s)\<rparr>)"
  using assms by (subst acquireLock_loop.simps) (simp add: Date_now_def)

lemma pass_unreadable:
  assumes "retries < maxRetries cfg" and "lock s = LockUnreadable" and "removable s"
  shows "acquireLock_loop cfg s retries
       = acquireLock_loop cfg (s\<lparr>ticks := Suc (ticks s), lock := NoLock\<rparr>) retries"
  using assms by (subst acquireLock_loop.simps) (simp add: Date_now_def releaseLock_def)

lemma pass_expired:
  assumes "retries < maxRetries cfg" and "lock s = LockAt t" and "removable s"
    and "lock_expired cfg (clock s (Suc (ticks s))) t"
  shows "acquireLock_loop cfg s retries
       = acquireLock_loop cfg (s\<lparr>ticks := Suc (Suc (ticks s)), lock := NoLock\<rparr>) retries"
  using assms by (subst acquireLock_loop.simps) (simp add: Date_now_def releaseLock_def)

lemma pass_held:
  assumes "retries < maxRetries cfg" and "maxRetries cfg \<le> 2 ^ 53"
    and "lock s = LockAt t \<and> \<not> lock_expired cfg (clock s (Suc (ticks s))) t \<or> lock s = LockUnparsable"
  shows "acquireLock_loop cfg s retries
       = (if Suc retries < maxRetries cfg
          then acquireLock_loop cfg
                 (s\<lparr>ticks := ticks s + 2,
                    slept := slept s @ [fl (num (retryDelay cfg) * of_nat (Suc retries))]\<rparr>)
                 (Suc retries)
          else acquireLock_loop cfg (s\<lparr>ticks := ticks s + 2\<rparr>) (Suc retries))"
  using assms increment_safe [OF assms(1,2)]
  by (subst acquireLock_loop.simps) (auto simp: Date_now_def sleep_def simp del: of_nat_Suc)

lemma pass_done:
  assumes "\<not> retries < maxRetries cfg"
  shows "acquireLock_loop cfg s retries = Some (Inl LockTimeout, s)"
  using assms by (subst acquireLock_loop.simps) simp

text \<open>A lock that stays held through every remaining pass: the loop gives up.\<close>

lemma loop_held:
  assumes "maxRetries cfg \<le> 2 ^ 53" and "retries \<le> maxRetries cfg"
    and "lock s = LockUnparsable
       \<or> lock s = LockAt t
         \<and> (\<forall>p. retries + p < maxRetries cfg
                \<longrightarrow> \<not> lock_expired cfg (clock s (ticks s + 2 * p + 1)) t)"
  shows "acquireLock_loop cfg s retries
       = Some (Inl LockTimeout,
               s\<lparr>ticks := ticks s + 2 * (maxRetries cfg - retries),
                 slept := slept s @ map (\<lambda>k. fl (num (retryDelay cfg) * of_nat k))
                                       [Suc retries..<maxRetries cfg]\<rparr>)"
  using assms(2,3)
proof (induction "maxRetries cfg - retries" arbitrary: s retries)
  case 0
  hence "\<not> retries < maxRetries cfg" by simp
  thus ?case using 0 by (simp add: pass_done)
next
  case (Suc n)
  hence r: "retries < maxRetries cfg" by simp
  have held: "lock s = LockAt t \<and> \<not> lock_expired cfg (clock s (Suc (ticks s))) t
            \<or> lock s = LockUnparsable"
    using Suc.prems(2) r by (auto dest: spec [of _ 0])
  show ?case
  proof (cases "Suc retries < maxRetries cfg")
    case True
    define s' where "s' = s\<lparr>ticks := ticks s + 2,
                    slept := slept s @ [fl (num (retryDelay cfg) * of_nat (Suc retries))]\<rparr>"
    have n: "n = maxRetries cfg - Suc retries" using Suc.hyps(2) by simp
    have prem: "lock s' = LockUnparsable
       \<or> lock s' = LockAt t
         \<and> (\<forall>p. Suc retries + p < maxRetries cfg
                \<longrightarrow> \<not> lock_expired cfg (clock s' (ticks s' + 2 * p + 1)) t)"
    proof (cases "lock s = LockUnparsable")
      case True thus ?thesis by (simp add: s'_def)
    next
      case False
      hence l: "lock s = LockAt t"
        and e: "\<forall>p. retries + p < maxRetries cfg
                \<longrightarrow> \<not> lock_expired cfg (clock s (ticks s + 2 * p + 1)) t"
        using Suc.prems(2) by auto
      have "\<not> lock_expired cfg (clock s (ticks s + 2 + 2 * p + 1)) t"
        if "Suc retries + p < maxRetries cfg" for p
        using e [rule_format, of "Suc p"] that by simp
      thus ?thesis using l by (simp add: s'_def)
    qed
    have IH: "acquireLock_loop cfg s' (Suc retries)
       = Some (Inl LockTimeout,
               s'\<lparr>ticks := ticks s' + 2 * (maxRetries cfg - Suc retries),
                 slept := slept s' @ map (\<lambda>k. fl (num (retryDelay cfg) * of_nat k))
                                       [Suc (Suc retries)..<maxRetries cfg]\<rparr>)"
      using Suc.hyps(1) [OF n _ prem] True by simp
    have up: "[Suc retries..<maxRetries cfg] = Suc retries # [Suc (Suc retries)..<maxRetries cfg]"
      using True by (simp add: upt_conv_Cons)
    have t: "Suc (Suc (ticks s + 2 * (maxRetries cfg - Suc retries)))
           = ticks s + 2 * (maxRetries cfg - retries)"
      using r by simp
    show ?thesis
      unfolding pass_held [OF r assms(1) held] if_P [OF True] s'_def [symmetric] IH
      by (simp add: s'_def up t del: of_nat_Suc upt_Suc)
  next
    case False
    hence m: "maxRetries cfg = Suc retries" using r by simp
    show ?thesis
      unfolding pass_held [OF r assms(1) held] if_not_P [OF False]
      by (simp add: pass_done m del: of_nat_Suc upt_Suc)
  qed
qed

text \<open>
  A lock that is found expired at pass \<open>P\<close> and not before: the loop sleeps \<open>P\<close> times,
  removes the file, and takes the lock in the next pass.
\<close>

lemma loop_expires:
  assumes "maxRetries cfg \<le> 2 ^ 53" and "creatable s" and "removable s"
    and "lock s = LockAt t"
    and "retries + P < maxRetries cfg"
    and "\<forall>p<P. \<not> lock_expired cfg (clock s (ticks s + 2 * p + 1)) t"
    and "lock_expired cfg (clock s (ticks s + 2 * P + 1)) t"
  shows "acquireLock_loop cfg s retries
       = Some (Inr True,
               s\<lparr>lock := LockAt (clock s (ticks s + 2 * P + 2)),
                 ticks := ticks s + 2 * P + 3,
                 slept := slept s @ map (\<lambda>k. fl (num (retryDelay cfg) * of_nat k))
                                       [Suc retries..<Suc (retries + P)]\<rparr>)"
  using assms(2-)
proof (induction P arbitrary: s retries)
  case 0
  hence r: "retries < maxRetries cfg" by simp
  have e: "lock_expired cfg (clock s (Suc (ticks s))) t" using 0 by simp
  show ?case
    unfolding pass_expired [OF r 0(3) 0(2) e]
    using r 0(1) by (subst pass_free) (simp_all del: upt_Suc)
next
  case (Suc P)
  hence r: "retries < maxRetries cfg" and r': "Suc retries < maxRetries cfg" by simp_all
  have held: "lock s = LockAt t \<and> \<not> lock_expired cfg (clock s (Suc (ticks s))) t
            \<or> lock s = LockUnparsable"
    using Suc.prems(3,5) by (auto dest: spec [of _ 0])
  define s' where "s' = s\<lparr>ticks := ticks s + 2,
                  slept := slept s @ [fl (num (retryDelay cfg) * of_nat (Suc retries))]\<rparr>"
  have 1: "\<forall>p<P. \<not> lock_expired cfg (clock s' (ticks s' + 2 * p + 1)) t"
  proof (intro allI impI)
    fix p assume "p < P"
    thus "\<not> lock_expired cfg (clock s' (ticks s' + 2 * p + 1)) t"
      using Suc.prems(5) [rule_format, of "Suc p"] by (simp add: s'_def)
  qed
  have 2: "lock_expired cfg (clock s' (ticks s' + 2 * P + 1)) t"
    using Suc.prems(6) by (simp add: s'_def)
  have IH: "acquireLock_loop cfg s' (Suc retries)
       = Some (Inr True,
               s'\<lparr>lock := LockAt (clock s' (ticks s' + 2 * P + 2)),
                 ticks := ticks s' + 2 * P + 3,
                 slept := slept s' @ map (\<lambda>k. fl (num (retryDelay cfg) * of_nat k))
                                       [Suc (Suc retries)..<Suc (Suc retries + P)]\<rparr>)"
    using Suc.prems by (intro Suc.IH 1 2) (simp_all add: s'_def)
  have up: "[Suc retries..<Suc (Suc (retries + P))]
          = Suc retries # [Suc (Suc retries)..<Suc (Suc (retries + P))]"
    by (simp add: upt_conv_Cons)
  show ?case
    unfolding pass_held [OF r assms(1) held] if_P [OF r'] s'_def [symmetric] IH
    by (simp add: s'_def up del: of_nat_Suc upt_Suc)
qed

text \<open>
  Claim C6, as amended.  The lock manager makes at most \<open>maxRetries\<close> counted attempts,
  3 unless configured, and before the counted attempt \<open>k + 1\<close> it sleeps \<open>retryDelay * k\<close>:
  the delays grow linearly.  In a directory where the lock file can be created and removed,
  with timestamps and delays that are exactly representable numbers:
  a free lock is taken at once; a lock file that cannot be read is removed and the lock
  taken; a lock file whose text is not a number, or whose age never exceeds \<open>lockTimeout\<close> at
  any of the \<open>maxRetries\<close> passes, makes the acquisition fail with the lock-timeout error after
  the delays \<open>retryDelay * 1, \<dots>, retryDelay * (maxRetries - 1)\<close>; and a lock file whose age
  first exceeds \<open>lockTimeout\<close> at pass \<open>P\<close> is removed at that pass, whichever it is, and the
  lock taken in the next pass without a further sleep and without using up a retry, after
  the delays \<open>retryDelay * 1, \<dots>, retryDelay * P\<close>.
\<close>

theorem acquireLock_linear_backoff:
  assumes "0 < maxRetries cfg" and "maxRetries cfg \<le> 2 ^ 53"
    and "\<bar>retryDelay cfg\<bar> * int (maxRetries cfg) \<le> 2 ^ 53"
    and "\<bar>lockTimeout cfg\<bar> \<le> 2 ^ 53"
    and "creatable s" and "removable s"
    and "\<forall>i < ticks s + 2 * maxRetries cfg. \<bar>clock s i\<bar> \<le> 2 ^ 52"
  shows "maxRetries (LockManager_new None optRetryDelay optLockTimeout) = 3
       \<and> (lock s = NoLock \<longrightarrow>
            acquireLock cfg s
            = Some (Inr True, s\<lparr>lock := LockAt (clock s (ticks s)), ticks := Suc (ticks s)\<rparr>))
       \<and> (lock s = LockUnreadable \<longrightarrow>
            acquireLock cfg s
            = Some (Inr True,
                    s\<lparr>lock := LockAt (clock s (Suc (ticks s))), ticks := ticks s + 2\<rparr>))
       \<and> (lock s = LockUnparsable
            \<or> (\<exists>t. lock s = LockAt t \<and> \<bar>t\<bar> \<le> 2 ^ 52
                   \<and> (\<forall>p < maxRetries cfg.
                         clock s (ticks s + 2 * p + 1) - t \<le> lockTimeout cfg)) \<longrightarrow>
            acquireLock cfg s
            = Some (Inl LockTimeout,
                    s\<lparr>ticks := ticks s + 2 * maxRetries cfg,
                      slept := slept s @ map (\<lambda>k. of_int (retryDelay cfg * int k))
                                            [1..<maxRetries cfg]\<rparr>))
       \<and> (\<forall>t P. lock s = LockAt t \<and> \<bar>t\<bar> \<le> 2 ^ 52 \<and> P < maxRetries cfg
                \<and> (\<forall>p < P. clock s (ticks s + 2 * p + 1) - t \<le> lockTimeout cfg)
                \<and> lockTimeout cfg < clock s (ticks s + 2 * P + 1) - t \<longrightarrow>
            acquireLock cfg s
            = Some (Inr True,
                    s\<lparr>lock := LockAt (clock s (ticks s + 2 * P + 2)),
                      ticks := ticks s + 2 * P + 3,
                      slept := slept s @ map (\<lambda>k. of_int (retryDelay cfg * int k))
                                            [1..<Suc P]\<rparr>))"
proof -
  have delays: "map (\<lambda>k. fl (num (retryDelay cfg) * of_nat k)) [Suc 0..<n]
              = map (\<lambda>k. of_int (retryDelay cfg * int k)) [1..<n]"
    if "n \<le> maxRetries cfg" for n
    using that by (auto simp: delay_safe [OF assms(3)])
  have expired: "lock_expired cfg (clock s (ticks s + 2 * p + 1)) t
             \<longleftrightarrow> lockTimeout cfg < clock s (ticks s + 2 * p + 1) - t"
    if "p < maxRetries cfg" and "\<bar>t\<bar> \<le> 2 ^ 52" for p t
  proof -
    have "ticks s + 2 * p + 1 < ticks s + 2 * maxRetries cfg" using that(1) by simp
    hence "\<bar>clock s (ticks s + 2 * p + 1)\<bar> \<le> 2 ^ 52" using assms(7) by blast
    thus ?thesis using that(2) assms(4) by (rule lock_expired_safe)
  qed
  have 1: "maxRetries (LockManager_new None optRetryDelay optLockTimeout) = 3"
    by (simp add: LockManager_new_def)
  have 2: "acquireLock cfg s
         = Some (Inr True, s\<lparr>lock := LockAt (clock s (ticks s)), ticks := Suc (ticks s)\<rparr>)"
    if "lock s = NoLock"
    unfolding acquireLock_def using assms(1) that assms(5) by (rule pass_free)
  have 3: "acquireLock cfg s
         = Some (Inr True, s\<lparr>lock := LockAt (clock s (Suc (ticks s))), ticks := ticks s + 2\<rparr>)"
    if "lock s = LockUnreadable"
    unfolding acquireLock_def pass_unreadable [OF assms(1) that assms(6)]
    using assms(1,5) by (subst pass_free) simp_all
  have 4: "acquireLock cfg s
         = Some (Inl LockTimeout,
                 s\<lparr>ticks := ticks s + 2 * maxRetries cfg,
                   slept := slept s @ map (\<lambda>k. of_int (retryDelay cfg * int k))
                                         [1..<maxRetries cfg]\<rparr>)"
    if h: "lock s = LockUnparsable
         \<or> (\<exists>t. lock s = LockAt t \<and> \<bar>t\<bar> \<le> 2 ^ 52
                \<and> (\<forall>p < maxRetries cfg. clock s (ticks s + 2 * p + 1) - t \<le> lockTimeout cfg))"
  proof -
    from h consider "lock s = LockUnparsable"
      | t where "lock s = LockAt t" "\<bar>t\<bar> \<le> 2 ^ 52"
          "\<forall>p < maxRetries cfg. clock s (ticks s + 2 * p + 1) - t \<le> lockTimeout cfg"
      by blast
    hence "\<exists>t. lock s = LockUnparsable
             \<or> lock s = LockAt t
               \<and> (\<forall>p. 0 + p < maxRetries cfg
                      \<longrightarrow> \<not> lock_expired cfg (clock s (ticks s + 2 * p + 1)) t)"
    proof cases
      case 1 thus ?thesis by simp
    next
      case (2 t)
      have "\<not> lock_expired cfg (clock s (ticks s + 2 * p + 1)) t" if "p < maxRetries cfg" for p
        using expired [OF that 2(2)] 2(3) that by (simp add: not_less)
      thus ?thesis using 2(1) by auto
    qed
    then obtain t where "lock s = LockUnparsable
             \<or> lock s = LockAt t
               \<and> (\<forall>p. 0 + p < maxRetries cfg
                      \<longrightarrow> \<not> lock_expired cfg (clock s (ticks s + 2 * p + 1)) t)" ..
    from loop_held [OF assms(2) _ this] show ?thesis
      by (simp add: acquireLock_def delays del: upt_Suc)
  qed
  have 5: "acquireLock cfg s
         = Some (Inr True,
                 s\<lparr>lock := LockAt (clock s (ticks s + 2 * P + 2)),
                   ticks := ticks s + 2 * P + 3,
                   slept := slept s @ map (\<lambda>k. of_int (retryDelay cfg * int k)) [1..<Suc P]\<rparr>)"
    if "lock s = LockAt t" and t: "\<bar>t\<bar> \<le> 2 ^ 52" and P: "P < maxRetries cfg"
      and before: "\<forall>p < P. clock s (ticks s + 2 * p + 1) - t \<le> lockTimeout cfg"
      and at: "lockTimeout cfg < clock s (ticks s + 2 * P + 1) - t" for t P
  proof -
    have a: "\<forall>p<P. \<not> lock_expired cfg (clock s (ticks s + 2 * p + 1)) t"
    proof (intro allI impI)
      fix p assume "p < P"
      hence "p < maxRetries cfg" using P by simp
      from expired [OF this t] before \<open>p < P\<close>
      show "\<not> lock_expired cfg (clock s (ticks s + 2 * p + 1)) t" by (simp add: not_less)
    qed
    have b: "lock_expired cfg (clock s (ticks s + 2 * P + 1)) t"
      using expired [OF P t] at by simp
    have P0: "0 + P < maxRetries cfg" using P by simp
    from loop_expires [OF assms(2,5,6) that(1) P0 a b] P show ?thesis
      by (simp add: acquireLock_def delays del: upt_Suc)
  qed
  show ?thesis using 1 2 3 4 5 by blast
qed

theorem acquireLock_linear_backoff_witness:
  "acquireLock (LockManager_new None None None) (example_lock (LockAt 0) 29000 500)
   = Some (Inr True,
           (example_lock (LockAt 0) 29000 500)\<lparr>lock := LockAt 31000, ticks := 5, slept := [1000]\<rparr>)
   \<and> acquireLock (LockManager_new None None None) (example_lock LockUnparsable 29000 500)
   = Some (Inl LockTimeout,
           (example_lock LockUnparsable 29000 500)\<lparr>ticks := 6, slept := [1000, 2000]\<rparr>)
   \<and> acquireLock (LockManager_new None None None) (example_lock (LockAt 0) 0 500)
   = Some (Inl LockTimeout, (example_lock (LockAt 0) 0 500)\<lparr>ticks := 6, slept := [1000, 2000]\<rparr>)
   \<and> acquireLock (LockManager_new None None None) (example_lock NoLock 29000 500)
   = Some (Inr True, (example_lock NoLock 29000 500)\<lparr>lock := LockAt 29000, ticks := 1\<rparr>)
   \<and> acquireLock (LockManager_new None None None) (example_lock LockUnreadable 29000 500)
   = Some (Inr True, (example_lock LockUnreadable 29000 500)\<lparr>lock := LockAt 29500, ticks := 2\<rparr>)"
proof -
  let ?cfg = "LockManager_new None None None"
  have cfg: "maxRetries ?cfg = 3" "retryDelay ?cfg = 1000" "lockTimeout ?cfg = 30000"
    by (simp_all add: LockManager_new_def)
  have up: "[Suc 0..<3] = [1, 2]" "[Suc 0..<2] = [1]" by (simp_all add: upt_conv_Cons)
  have lt3: "p < 3 \<longleftrightarrow> p = 0 \<or> p = 1 \<or> p = (2::nat)" for p by auto
  have lt1: "p < 1 \<longleftrightarrow> p = (0::nat)" for p by auto
  have safe: "\<forall>i < ticks (example_lock l c 500) + 2 * maxRetries ?cfg.
                \<bar>clock (example_lock l c 500) i\<bar> \<le> 2 ^ 52"
    if "0 \<le> c" and "c \<le> 30000" for l c
  proof (intro allI impI)
    fix i assume "i < ticks (example_lock l c 500) + 2 * maxRetries ?cfg"
    hence "int i < 6" by (simp add: cfg example_lock_def)
    thus "\<bar>clock (example_lock l c 500) i\<bar> \<le> 2 ^ 52"
      using that by (simp add: example_lock_def)
  qed
  have th: "maxRetries (LockManager_new None None None) = 3 \<and>
    (lock (example_lock l c 500) = NoLock \<longrightarrow>
      acquireLock ?cfg (example_lock l c 500)
      = Some (Inr True, (example_lock l c 500)\<lparr>lock := LockAt (clock (example_lock l c 500) (ticks (example_lock l c 500))), ticks := Suc (ticks (example_lock l c 500))\<rparr>)) \<and>
    (lock (example_lock l c 500) = LockUnreadable \<longrightarrow>
      acquireLock ?cfg (example_lock l c 500)
      = Some (Inr True, (example_lock l c 500)\<lparr>lock := LockAt (clock (example_lock l c 500) (Suc (ticks (example_lock l c 500)))), ticks := ticks (example_lock l c 500) + 2\<rparr>)) \<and>
    (lock (example_lock l c 500) = LockUnparsable
      \<or> (\<exists>t. lock (example_lock l c 500) = LockAt t \<and> \<bar>t\<bar> \<le> 2 ^ 52
             \<and> (\<forall>p < maxRetries ?cfg.
                    clock (example_lock l c 500) (ticks (example_lock l c 500) + 2 * p + 1) - t
                    \<le> lockTimeout ?cfg)) \<longrightarrow>
      acquireLock ?cfg (example_lock l c 500)
      = Some (Inl LockTimeout,
              (example_lock l c 500)\<lparr>ticks := ticks (example_lock l c 500) + 2 * maxRetries ?cfg,
                slept := slept (example_lock l c 500)
                         @ map (\<lambda>k. of_int (retryDelay ?cfg * int k)) [1..<maxRetries ?cfg]\<rparr>)) \<and>
    (\<forall>t P. lock (example_lock l c 500) = LockAt t \<and> \<bar>t\<bar> \<le> 2 ^ 52 \<and> P < maxRetries ?cfg
        \<and> (\<forall>p < P. clock (example_lock l c 500) (ticks (example_lock l c 500) + 2 * p + 1) - t
                      \<le> lockTimeout ?cfg)
        \<and> lockTimeout ?cfg
            < clock (example_lock l c 500) (ticks (example_lock l c 500) + 2 * P + 1) - t \<longrightarrow>
      acquireLock ?cfg (example_lock l c 500)
      = Some (Inr True,
              (example_lock l c 500)\<lparr>lock := LockAt (clock (example_lock l c 500) (ticks (example_lock l c 500) + 2 * P + 2)),
                ticks := ticks (example_lock l c 500) + 2 * P + 3,
                slept := slept (example_lock l c 500)
                         @ map (\<lambda>k. of_int (retryDelay ?cfg * int k)) [1..<Suc P]\<rparr>))"
    if "0 \<le> c" and "c \<le> 30000" for l c
    by (rule acquireLock_linear_backoff [where cfg = ?cfg and s = "example_lock l c 500"
               and optRetryDelay = None and optLockTimeout = None, OF _ _ _ _ _ _ safe [OF that]])
       (simp_all add: cfg example_lock_def)
  have a: "acquireLock ?cfg (example_lock (LockAt 0) 29000 500)
     = Some (Inr True,
         (example_lock (LockAt 0) 29000 500)\<lparr>lock := LockAt 31000, ticks := 5, slept := [1000]\<rparr>)"
    using th [of 29000 "LockAt 0", THEN conjunct2, THEN conjunct2,
              THEN conjunct2, THEN conjunct2, rule_format, of 0 1]
    by (simp add: cfg example_lock_def lt1 up)
  have b: "acquireLock ?cfg (example_lock LockUnparsable 29000 500)
     = Some (Inl LockTimeout,
         (example_lock LockUnparsable 29000 500)\<lparr>ticks := 6, slept := [1000, 2000]\<rparr>)"
    using th [of 29000 LockUnparsable]
    by (simp add: cfg example_lock_def up)
  have c: "acquireLock ?cfg (example_lock (LockAt 0) 0 500)
     = Some (Inl LockTimeout, (example_lock (LockAt 0) 0 500)\<lparr>ticks := 6, slept := [1000, 2000]\<rparr>)"
    using th [of 0 "LockAt 0"]
    by (simp add: cfg example_lock_def lt3 up)
  have d: "acquireLock ?cfg (example_lock NoLock 29000 500)
     = Some (Inr True, (example_lock NoLock 29000 500)\<lparr>lock := LockAt 29000, ticks := 1\<rparr>)"
    using th [of 29000 NoLock]
    by (simp add: cfg example_lock_def)
  have e: "acquireLock ?cfg (example_lock LockUnreadable 29000 500)
     = Some (Inr True, (example_lock LockUnreadable 29000 500)\<lparr>lock := LockAt 29500, ticks := 2\<rparr>)"
    using th [of 29000 LockUnreadable]
    by (simp add: cfg example_lock_def)
  show ?thesis using a b c d e by blast
qed

text \<open>
  Claim C6 as stated fails: with four attempts against a lock that stays held, the delays
  are 1000, 2000 and 3000 milliseconds, which is not an exponential sequence
  (\<open>2000 * 2000 \<noteq> 1000 * 3000\<close>).
\<close>

theorem acquireLock_backoff_counterexample:
  "acquireLock (LockManager_new (Some 4) None None) (example_lock (LockAt 0) 0 0)
   = Some (Inl LockTimeout,
           (example_lock (LockAt 0) 0 0)\<lparr>ticks := 8, slept := [1000, 2000, 3000]\<rparr>)
   \<and> \<not> exponential_backoff [1000, 2000, 3000]"
proof -
  let ?cfg = "LockManager_new (Some 4) None None"
  have cfg: "maxRetries ?cfg = 4" "retryDelay ?cfg = 1000" "lockTimeout ?cfg = 30000"
    by (simp_all add: LockManager_new_def)
  have e: "\<not> lock_expired ?cfg 0 0" by (simp add: lock_expired_def num_def cfg)
  note i = increment_def
  have "acquireLock ?cfg (example_lock (LockAt 0) 0 0)
      = Some (Inl LockTimeout,
              (example_lock (LockAt 0) 0 0)\<lparr>ticks := 8, slept := [1000, 2000, 3000]\<rparr>)"
    unfolding acquireLock_def example_lock_def
    apply (subst acquireLock_loop.simps, simp add: cfg e i Date_now_def sleep_def num_def)
    apply (subst acquireLock_loop.simps, simp add: cfg e i Date_now_def sleep_def num_def)
    apply (subst acquireLock_loop.simps, simp add: cfg e i Date_now_def sleep_def num_def)
    apply (subst acquireLock_loop.simps, simp add: cfg e i Date_now_def sleep_def num_def)
    apply (subst acquireLock_loop.simps, simp add: cfg)
    done
  thus ?thesis by simp
qed

section \<open>Properties of the history statistics\<close>

text \<open>The time span in days is positive exactly if the newer time value is the larger one.\<close>

lemma timeSpan_positive:
  "0 < fl (fl (of_int (t1 - t0)) / 86400000) \<longleftrightarrow> t0 < t1"
proof (cases "t0 < t1")
  case True
  hence "(2::rat) powi 0 \<le> of_int (t1 - t0)" by simp
  hence "(2::rat) powi 0 \<le> fl (of_int (t1 - t0))" by (intro fl_ge) simp_all
  hence "1 / 86400000 \<le> fl (of_int (t1 - t0)) / 86400000" by (simp add: divide_right_mono)
  moreover have "(2::rat) powi (- 27) \<le> 1 / 86400000" by (simp add: power_int_minus_divide)
  ultimately have "(2::rat) powi (- 27) \<le> fl (of_int (t1 - t0)) / 86400000" by linarith
  hence "(2::rat) powi (- 27) \<le> fl (fl (of_int (t1 - t0)) / 86400000)" by (intro fl_ge) simp_all
  moreover have "(0::rat) < 2 powi (- 27)" by simp
  ultimately show ?thesis using True by linarith
next
  case False
  hence "(of_int (t1 - t0) :: rat) \<le> 0" by simp
  hence "fl (of_int (t1 - t0)) \<le> 0" by (rule fl_nonpos)
  hence "fl (of_int (t1 - t0)) / 86400000 \<le> 0" by (simp add: divide_le_0_iff)
  hence "fl (fl (of_int (t1 - t0)) / 86400000) \<le> 0" by (rule fl_nonpos)
  thus ?thesis using False by simp
qed

lemma round_zero: "fl (Math_round 0 / 100) = 0"
proof -
  have "\<lfloor>1 / 2 :: rat\<rfloor> = 0" by (rule floor_unique) simp_all
  thus ?thesis by (simp add: Math_round_def)
qed




end
